theory Spec2Isabelle
  imports Main
begin

section \<open>Data model of the lock manager\<close>

text \<open>
  Modelled from the spec: the header \<^verbatim>\<open>txn/lock_manager.h\<close> (the enum of lock modes, the
  request struct and the member declarations) is not among the sources. The code compares
  and returns the three modes below; a request is a pair of a mode and a transaction; the
  manager owns a table from keys to request queues and a table from transactions to
  \<^verbatim>\<open>int\<close> wait counts, and appends to a caller-owned ready queue. Keys and transactions
  are opaque, so they are type parameters. C++ member names end in an underscore
  (\<^verbatim>\<open>mode_\<close>, \<^verbatim>\<open>txn_\<close>, \<^verbatim>\<open>lock_table_\<close>, \<^verbatim>\<open>txn_waits_\<close>, \<^verbatim>\<open>ready_txns_\<close>), which is
  not a legal name here; the fields drop it (and the request fields get the prefix
  \<open>req_\<close>).
\<close>

datatype LockMode = UNLOCKED | SHARED | EXCLUSIVE

record 't LockRequest =
  req_mode :: LockMode
  req_txn :: 't

record ('k, 't) LockManager =
  lock_table :: "'k \<rightharpoonup> 't LockRequest list"
  txn_waits :: "'t \<rightharpoonup> int"
  ready_txns :: "'t list"

text \<open>A manager right after construction: no queue, no wait count, an empty ready queue.\<close>

definition new_manager :: "('k, 't) LockManager" where
  "new_manager = \<lparr>lock_table = Map.empty, txn_waits = Map.empty, ready_txns = []\<rparr>"

section \<open>Shared helpers\<close>

text \<open>
  \<^verbatim>\<open>_getLockQueue\<close>: look the key up and create an empty queue when there is none. The
  C++ returns a pointer to the queue; the model returns the queue's contents and the
  manager with the queue created.
\<close>

definition getLockQueue ::
  "'k \<Rightarrow> ('k, 't) LockManager \<Rightarrow> 't LockRequest list \<times> ('k, 't) LockManager" where
  "getLockQueue key s =
     (case lock_table s key of
        None \<Rightarrow> ([], s\<lparr>lock_table := (lock_table s)(key \<mapsto> [])\<rparr>)
      | Some dq \<Rightarrow> (dq, s))"

text \<open>A write through the pointer that \<^verbatim>\<open>_getLockQueue\<close> returned.\<close>

definition setLockQueue ::
  "'k \<Rightarrow> 't LockRequest list \<Rightarrow> ('k, 't) LockManager \<Rightarrow> ('k, 't) LockManager" where
  "setLockQueue key dq s = s\<lparr>lock_table := (lock_table s)(key \<mapsto> dq)\<rparr>"

text \<open>
  \<^verbatim>\<open>txn_waits_[txn]\<close> on an \<^verbatim>\<open>unordered_map<Txn*, int>\<close> reads 0 for a missing entry
  (and creates it); \<^verbatim>\<open>txn_waits_[txn]++\<close> stores the successor. The counts are far from
  the range of \<^verbatim>\<open>int\<close>, so they are modelled as unbounded integers.
\<close>

definition waits_get :: "('t \<rightharpoonup> int) \<Rightarrow> 't \<Rightarrow> int" where
  "waits_get w t = (case w t of None \<Rightarrow> 0 | Some c \<Rightarrow> c)"

definition waits_incr :: "('t \<rightharpoonup> int) \<Rightarrow> 't \<Rightarrow> ('t \<rightharpoonup> int)" where
  "waits_incr w t = w(t \<mapsto> waits_get w t + 1)"

text \<open>What a caller can see of a key's queue: a key never looked up has the empty queue.\<close>

definition queue_of :: "('k, 't) LockManager \<Rightarrow> 'k \<Rightarrow> 't LockRequest list" where
  "queue_of s key = (case lock_table s key of None \<Rightarrow> [] | Some dq \<Rightarrow> dq)"

section \<open>Policy A: exclusive locks only\<close>

definition LockManagerA_WriteLock ::
  "'t \<Rightarrow> 'k \<Rightarrow> ('k, 't) LockManager \<Rightarrow> bool \<times> ('k, 't) LockManager" where
  "LockManagerA_WriteLock txn key s =
     (let rq = \<lparr>req_mode = EXCLUSIVE, req_txn = txn\<rparr>;
          (dq, s1) = getLockQueue key s;
          empty = (dq = []);
          s2 = setLockQueue key (dq @ [rq]) s1;
          s3 = (if \<not> empty then s2\<lparr>txn_waits := waits_incr (txn_waits s2) txn\<rparr> else s2)
      in (empty, s3))"

definition LockManagerA_ReadLock ::
  "'t \<Rightarrow> 'k \<Rightarrow> ('k, 't) LockManager \<Rightarrow> bool \<times> ('k, 't) LockManager" where
  "LockManagerA_ReadLock txn key s = LockManagerA_WriteLock txn key s"

text \<open>
  The scan of \<^verbatim>\<open>LockManagerA::Release\<close>: erase the first request of \<open>txn\<close> and stop;
  every request passed over before that clears the flag \<^verbatim>\<open>removedOwner\<close>.
\<close>

fun A_erase_scan ::
  "'t \<Rightarrow> 't LockRequest list \<Rightarrow> bool \<Rightarrow> 't LockRequest list \<times> bool" where
  "A_erase_scan txn [] removedOwner = ([], removedOwner)"
| "A_erase_scan txn (r # rest) removedOwner =
     (if req_txn r = txn then (rest, removedOwner)
      else (let (rest', flag) = A_erase_scan txn rest False in (r # rest', flag)))"

definition LockManagerA_Release ::
  "'t \<Rightarrow> 'k \<Rightarrow> ('k, 't) LockManager \<Rightarrow> ('k, 't) LockManager" where
  "LockManagerA_Release txn key s =
     (let (queue, s1) = getLockQueue key s;
          (queue', removedOwner) = A_erase_scan txn queue True;
          s2 = setLockQueue key queue' s1
      in if queue' \<noteq> [] \<and> removedOwner then
           (let next = hd queue';
                wait_count = waits_get (txn_waits s2) (req_txn next) - 1;
                s3 = s2\<lparr>txn_waits := (txn_waits s2)(req_txn next \<mapsto> wait_count)\<rparr>
            in if wait_count = 0 then
                 s3\<lparr>ready_txns := ready_txns s3 @ [req_txn next],
                    txn_waits := (txn_waits s3)(req_txn next := None)\<rparr>
               else s3)
         else s2)"

text \<open>
  \<^verbatim>\<open>LockManagerA::Status\<close> writes through \<^verbatim>\<open>owners\<close> only when the queue is not empty;
  the model takes the vector's old contents and returns the new ones.
\<close>

definition LockManagerA_Status ::
  "'k \<Rightarrow> 't list \<Rightarrow> ('k, 't) LockManager \<Rightarrow> LockMode \<times> 't list \<times> ('k, 't) LockManager" where
  "LockManagerA_Status key owners s =
     (let (dq, s1) = getLockQueue key s
      in if dq = [] then (UNLOCKED, owners, s1)
         else (EXCLUSIVE, [req_txn (hd dq)], s1))"

section \<open>Policy B: shared and exclusive locks\<close>

text \<open>
  The loop of \<^verbatim>\<open>LockManagerB::Status\<close>, with its two local variables \<^verbatim>\<open>mode\<close> and
  \<^verbatim>\<open>txn_owners\<close> as accumulators.
\<close>

fun B_status_walk ::
  "'t LockRequest list \<Rightarrow> LockMode \<Rightarrow> 't list \<Rightarrow> LockMode \<times> 't list" where
  "B_status_walk [] mode txn_owners = (mode, txn_owners)"
| "B_status_walk (lockRequest # rest) mode txn_owners =
     (if req_mode lockRequest = EXCLUSIVE \<and> mode = SHARED then (mode, txn_owners)
      else (let txn_owners' = txn_owners @ [req_txn lockRequest];
                mode' = req_mode lockRequest
            in if mode' = EXCLUSIVE then (mode', txn_owners')
               else B_status_walk rest mode' txn_owners'))"

text \<open>
  \<^verbatim>\<open>owners\<close> may be the null pointer (\<open>None\<close>); otherwise it points to a vector, which
  is overwritten only when the queue is not empty.
\<close>

definition LockManagerB_Status ::
  "'k \<Rightarrow> 't list option \<Rightarrow> ('k, 't) LockManager
     \<Rightarrow> LockMode \<times> 't list option \<times> ('k, 't) LockManager" where
  "LockManagerB_Status key owners s =
     (let (dq, s1) = getLockQueue key s
      in if dq = [] then (UNLOCKED, owners, s1)
         else (let (mode, txn_owners) = B_status_walk dq EXCLUSIVE []
               in (mode, (case owners of None \<Rightarrow> None | Some _ \<Rightarrow> Some txn_owners), s1)))"

fun noExclusive_scan :: "'t LockRequest list \<Rightarrow> bool" where
  "noExclusive_scan [] = True"
| "noExclusive_scan (lr # rest) =
     (if req_mode lr = EXCLUSIVE then False else noExclusive_scan rest)"

definition LockManagerB_noExclusiveWaiting ::
  "'k \<Rightarrow> ('k, 't) LockManager \<Rightarrow> bool \<times> ('k, 't) LockManager" where
  "LockManagerB_noExclusiveWaiting key s =
     (let (dq, s1) = getLockQueue key s in (noExclusive_scan dq, s1))"

definition LockManagerB_WriteLock ::
  "'t \<Rightarrow> 'k \<Rightarrow> ('k, 't) LockManager \<Rightarrow> bool \<times> ('k, 't) LockManager" where
  "LockManagerB_WriteLock txn key s =
     (let rq = \<lparr>req_mode = EXCLUSIVE, req_txn = txn\<rparr>;
          (status, _, s1) = LockManagerB_Status key None s;
          (dq, s2) = getLockQueue key s1;
          s3 = setLockQueue key (dq @ [rq]) s2;
          granted = (status = UNLOCKED);
          s4 = (if \<not> granted then s3\<lparr>txn_waits := waits_incr (txn_waits s3) txn\<rparr> else s3)
      in (granted, s4))"

text \<open>
  In \<^verbatim>\<open>status == UNLOCKED || _noExclusiveWaiting(key)\<close> the right operand runs only when
  the left one is false, and it runs after the request was appended.
\<close>

definition LockManagerB_ReadLock ::
  "'t \<Rightarrow> 'k \<Rightarrow> ('k, 't) LockManager \<Rightarrow> bool \<times> ('k, 't) LockManager" where
  "LockManagerB_ReadLock txn key s =
     (let rq = \<lparr>req_mode = SHARED, req_txn = txn\<rparr>;
          (status, _, s1) = LockManagerB_Status key None s;
          (dq, s2) = getLockQueue key s1;
          s3 = setLockQueue key (dq @ [rq]) s2;
          (granted, s4) = (if status = UNLOCKED then (True, s3)
                           else LockManagerB_noExclusiveWaiting key s3);
          s5 = (if \<not> granted then s4\<lparr>txn_waits := waits_incr (txn_waits s4) txn\<rparr> else s4)
      in (granted, s5))"

fun B_erase_scan :: "'t \<Rightarrow> 't LockRequest list \<Rightarrow> 't LockRequest list" where
  "B_erase_scan txn [] = []"
| "B_erase_scan txn (r # rest) =
     (if req_txn r = txn then rest else r # B_erase_scan txn rest)"

text \<open>
  The second loop of \<^verbatim>\<open>LockManagerB::Release\<close>: every new owner that has a wait count
  gets it decremented, and is made ready and erased when the count reaches 0.
\<close>

fun B_wake_owners :: "'t list \<Rightarrow> ('k, 't) LockManager \<Rightarrow> ('k, 't) LockManager" where
  "B_wake_owners [] s = s"
| "B_wake_owners (owner # rest) s =
     (case txn_waits s owner of
        None \<Rightarrow> B_wake_owners rest s
      | Some c \<Rightarrow>
          (if c - 1 = 0 then
             B_wake_owners rest
               (s\<lparr>ready_txns := ready_txns s @ [owner],
                  txn_waits := (txn_waits s)(owner := None)\<rparr>)
           else B_wake_owners rest (s\<lparr>txn_waits := (txn_waits s)(owner \<mapsto> c - 1)\<rparr>)))"

definition LockManagerB_Release ::
  "'t \<Rightarrow> 'k \<Rightarrow> ('k, 't) LockManager \<Rightarrow> ('k, 't) LockManager" where
  "LockManagerB_Release txn key s =
     (let (queue, s1) = getLockQueue key s;
          s2 = setLockQueue key (B_erase_scan txn queue) s1;
          (_, newOwners, s3) = LockManagerB_Status key (Some []) s2
      in B_wake_owners (case newOwners of None \<Rightarrow> [] | Some os \<Rightarrow> os) s3)"

section \<open>Sequences of calls\<close>

datatype ('k, 't) call =
  ReadLock 't 'k | WriteLock 't 'k | Release 't 'k | Status 'k

datatype 't outcome = Granted bool | Released | Owners LockMode "'t list"

text \<open>One call under each policy; a \<open>Status\<close> call passes a fresh, empty vector.\<close>

fun stepA :: "('k, 't) call \<Rightarrow> ('k, 't) LockManager \<Rightarrow> 't outcome \<times> ('k, 't) LockManager" where
  "stepA (ReadLock txn key) s = (let (g, s') = LockManagerA_ReadLock txn key s in (Granted g, s'))"
| "stepA (WriteLock txn key) s = (let (g, s') = LockManagerA_WriteLock txn key s in (Granted g, s'))"
| "stepA (Release txn key) s = (Released, LockManagerA_Release txn key s)"
| "stepA (Status key) s = (let (m, os, s') = LockManagerA_Status key [] s in (Owners m os, s'))"

fun stepB :: "('k, 't) call \<Rightarrow> ('k, 't) LockManager \<Rightarrow> 't outcome \<times> ('k, 't) LockManager" where
  "stepB (ReadLock txn key) s = (let (g, s') = LockManagerB_ReadLock txn key s in (Granted g, s'))"
| "stepB (WriteLock txn key) s = (let (g, s') = LockManagerB_WriteLock txn key s in (Granted g, s'))"
| "stepB (Release txn key) s = (Released, LockManagerB_Release txn key s)"
| "stepB (Status key) s =
     (let (m, os, s') = LockManagerB_Status key (Some []) s
      in (Owners m (case os of None \<Rightarrow> [] | Some l \<Rightarrow> l), s'))"

text \<open>A sequence of calls: the outcomes in order, and the manager at the end.\<close>

fun run ::
  "(('k, 't) call \<Rightarrow> ('k, 't) LockManager \<Rightarrow> 't outcome \<times> ('k, 't) LockManager)
     \<Rightarrow> ('k, 't) call list \<Rightarrow> ('k, 't) LockManager \<Rightarrow> 't outcome list \<times> ('k, 't) LockManager" where
  "run step [] s = ([], s)"
| "run step (c # cs) s =
     (let (out, s') = step c s; (outs, s'') = run step cs s' in (out # outs, s''))"

section \<open>Notions used in the statements\<close>

text \<open>
  What \<^verbatim>\<open>LockManagerB::Status\<close> computes from the contents of a queue: the mode it
  returns and the owners it collects.
\<close>

definition B_status_of :: "'t LockRequest list \<Rightarrow> LockMode \<times> 't list" where
  "B_status_of q = (if q = [] then (UNLOCKED, []) else B_status_walk q EXCLUSIVE [])"

text \<open>
  The walk as the specification words it, written independently of the code: the requests
  accepted as owners, given the running mode. A request is refused, and the walk stops,
  when it is exclusive and the running mode is shared; an accepted exclusive request ends
  the walk; an accepted request of another mode becomes the running mode.
\<close>

fun spec_owner_prefix :: "'t LockRequest list \<Rightarrow> LockMode \<Rightarrow> 't LockRequest list" where
  "spec_owner_prefix [] running = []"
| "spec_owner_prefix (r # rest) running =
     (if req_mode r = EXCLUSIVE \<and> running = SHARED then []
      else if req_mode r = EXCLUSIVE then [r]
      else r # spec_owner_prefix rest (req_mode r))"

text \<open>The requests of a queue carry the modes the four operations create.\<close>

definition queue_modes_ok :: "'t LockRequest list \<Rightarrow> bool" where
  "queue_modes_ok q = list_all (\<lambda>r. req_mode r \<noteq> UNLOCKED) q"

definition manager_modes_ok :: "('k, 't) LockManager \<Rightarrow> bool" where
  "manager_modes_ok s = (\<forall>k. queue_modes_ok (queue_of s k))"

text \<open>
  Everything a caller can observe of a manager: each key's queue, the wait counts and the
  ready queue. Whether an empty queue has been created for a key is not observable.
\<close>

definition observe ::
  "('k, 't) LockManager \<Rightarrow> ('k \<Rightarrow> 't LockRequest list) \<times> ('t \<rightharpoonup> int) \<times> 't list" where
  "observe s = (queue_of s, txn_waits s, ready_txns s)"






section \<open>Basic facts of the helpers\<close>

lemma getLockQueue_fst: "fst (getLockQueue key s) = queue_of s key"
  by (simp add: getLockQueue_def queue_of_def split: option.splits)

lemma getLockQueue_snd:
  "snd (getLockQueue key s) = s\<lparr>lock_table := (lock_table s)(key \<mapsto> queue_of s key)\<rparr>"
  by (simp add: getLockQueue_def queue_of_def map_upd_triv split: option.splits)

lemma getLockQueue_eq:
  "getLockQueue key s = (queue_of s key, s\<lparr>lock_table := (lock_table s)(key \<mapsto> queue_of s key)\<rparr>)"
  by (simp add: prod_eq_iff getLockQueue_fst getLockQueue_snd)

lemma queue_of_upd:
  "queue_of (s\<lparr>lock_table := (lock_table s)(key \<mapsto> dq)\<rparr>) k = (if k = key then dq else queue_of s k)"
  by (simp add: queue_of_def)

section \<open>Policy A: read locks are write locks\<close>

text \<open>
  C8. Under policy A, \<open>ReadLock\<close> returns the same result and leaves the same manager as
  \<open>WriteLock\<close>, for every transaction, key and manager.
\<close>

theorem A_ReadLock_is_WriteLock:
  "LockManagerA_ReadLock txn key s = LockManagerA_WriteLock txn key s \<and>
   stepA (ReadLock txn key) s = stepA (WriteLock txn key) s"
  by (simp add: LockManagerA_ReadLock_def)

lemmas eval_defs =
  new_manager_def LockManagerA_WriteLock_def LockManagerA_ReadLock_def
  LockManagerA_Release_def LockManagerA_Status_def LockManagerB_WriteLock_def
  LockManagerB_ReadLock_def LockManagerB_Release_def LockManagerB_Status_def
  LockManagerB_noExclusiveWaiting_def getLockQueue_def setLockQueue_def waits_get_def
  waits_incr_def queue_of_def Let_def

section \<open>The two scans that erase a request\<close>

lemma A_erase_scan_fst: "fst (A_erase_scan txn q f) = B_erase_scan txn q"
  by (induction q arbitrary: f) (simp_all add: split_beta)

lemma A_erase_scan_snd:
  "snd (A_erase_scan txn q f) = (case q of [] \<Rightarrow> f | r # _ \<Rightarrow> f \<and> req_txn r = txn)"
proof (cases q)
  case Nil
  then show ?thesis by simp
next
  case (Cons r rest)
  have "snd (A_erase_scan txn rest False) = False"
    by (induction rest) (simp_all add: split_beta)
  with Cons show ?thesis by (simp add: split_beta)
qed

lemma B_erase_scan_eq:
  "B_erase_scan txn q =
     takeWhile (\<lambda>r. req_txn r \<noteq> txn) q @ drop 1 (dropWhile (\<lambda>r. req_txn r \<noteq> txn) q)"
  by (induction q) simp_all

lemma B_erase_scan_absent: "txn \<notin> req_txn ` set q \<Longrightarrow> B_erase_scan txn q = q"
  by (induction q) auto

lemma B_erase_scan_subset: "set (B_erase_scan txn q) \<subseteq> set q"
  by (induction q) auto

section \<open>Policy A in closed form\<close>

lemma A_WriteLock_eq:
  "LockManagerA_WriteLock txn key s =
     (queue_of s key = [],
      s\<lparr>lock_table :=
           (lock_table s)(key \<mapsto> queue_of s key @ [\<lparr>req_mode = EXCLUSIVE, req_txn = txn\<rparr>]),
        txn_waits :=
           (if queue_of s key = [] then txn_waits s else waits_incr (txn_waits s) txn)\<rparr>)"
  by (simp add: LockManagerA_WriteLock_def getLockQueue_eq setLockQueue_def Let_def)

lemma A_Release_eq:
  "LockManagerA_Release txn key s =
     (let q = queue_of s key; q' = B_erase_scan txn q;
          s2 = s\<lparr>lock_table := (lock_table s)(key \<mapsto> q')\<rparr>
      in if q' \<noteq> [] \<and> req_txn (hd q) = txn
         then (let n = req_txn (hd q'); c = waits_get (txn_waits s) n - 1
               in if c = 0
                  then s2\<lparr>ready_txns := ready_txns s @ [n],
                          txn_waits := (txn_waits s)(n := None)\<rparr>
                  else s2\<lparr>txn_waits := (txn_waits s)(n \<mapsto> c)\<rparr>)
         else s2)"
proof -
  obtain q' f where sc: "A_erase_scan txn (queue_of s key) True = (q', f)"
    by (cases "A_erase_scan txn (queue_of s key) True")
  have q': "q' = B_erase_scan txn (queue_of s key)"
    using A_erase_scan_fst[of txn "queue_of s key" True] sc by simp
  have f: "f = (case queue_of s key of [] \<Rightarrow> True | r # _ \<Rightarrow> req_txn r = txn)"
    using A_erase_scan_snd[of txn "queue_of s key" True] sc by (simp split: list.splits)
  have g: "(q' \<noteq> [] \<and> f) = (q' \<noteq> [] \<and> req_txn (hd (queue_of s key)) = txn)"
    using q' f by (cases "queue_of s key") auto
  show ?thesis
    unfolding LockManagerA_Release_def getLockQueue_eq
    by (simp add: sc g setLockQueue_def Let_def) (simp add: q')
qed

lemma A_Status_eq:
  "LockManagerA_Status key owners s =
     (if queue_of s key = []
      then (UNLOCKED, owners, s\<lparr>lock_table := (lock_table s)(key \<mapsto> queue_of s key)\<rparr>)
      else (EXCLUSIVE, [req_txn (hd (queue_of s key))],
            s\<lparr>lock_table := (lock_table s)(key \<mapsto> queue_of s key)\<rparr>))"
  by (simp add: LockManagerA_Status_def getLockQueue_eq)

lemma A_Release_waits:
  "txn_waits (LockManagerA_Release tx k s) =
     (if B_erase_scan tx (queue_of s k) \<noteq> [] \<and> req_txn (hd (queue_of s k)) = tx
      then (if waits_get (txn_waits s) (req_txn (hd (B_erase_scan tx (queue_of s k)))) - 1 = 0
            then (txn_waits s)(req_txn (hd (B_erase_scan tx (queue_of s k))) := None)
            else (txn_waits s)(req_txn (hd (B_erase_scan tx (queue_of s k))) \<mapsto>
                   waits_get (txn_waits s) (req_txn (hd (B_erase_scan tx (queue_of s k)))) - 1))
      else txn_waits s)"
  by (simp add: A_Release_eq Let_def)

section \<open>Policy A: the write lock\<close>

text \<open>
  C7. Under policy A, \<open>WriteLock txn key\<close> appends an exclusive request of \<open>txn\<close> to the
  queue of \<open>key\<close> and returns whether the queue was empty before. When it returns false,
  the wait count of \<open>txn\<close> grows by one. No other queue and no other wait count changes,
  and nothing is appended to the ready queue.
\<close>

theorem A_WriteLock_effect:
  "fst (LockManagerA_WriteLock txn key s) = (queue_of s key = []) \<and>
   lock_table (snd (LockManagerA_WriteLock txn key s)) =
     (lock_table s)(key \<mapsto> queue_of s key @ [\<lparr>req_mode = EXCLUSIVE, req_txn = txn\<rparr>]) \<and>
   txn_waits (snd (LockManagerA_WriteLock txn key s)) =
     (if fst (LockManagerA_WriteLock txn key s) then txn_waits s
      else (txn_waits s)(txn \<mapsto> waits_get (txn_waits s) txn + 1)) \<and>
   ready_txns (snd (LockManagerA_WriteLock txn key s)) = ready_txns s"
  by (simp add: A_WriteLock_eq waits_incr_def)

theorem A_WriteLock_effect_witness:
  "fst (LockManagerA_WriteLock (2::nat) ''x''
          (snd (LockManagerA_WriteLock 1 ''x'' new_manager))) = False \<and>
   txn_waits (snd (LockManagerA_WriteLock (2::nat) ''x''
          (snd (LockManagerA_WriteLock 1 ''x'' new_manager)))) 2 = Some 1 \<and>
   txn_waits (snd (LockManagerA_WriteLock (2::nat) ''x''
          (snd (LockManagerA_WriteLock 1 ''x'' new_manager)))) 1 = None \<and>
   lock_table (snd (LockManagerA_WriteLock (2::nat) ''x''
          (snd (LockManagerA_WriteLock 1 ''x'' new_manager)))) ''x'' =
     Some [\<lparr>req_mode = EXCLUSIVE, req_txn = 1\<rparr>, \<lparr>req_mode = EXCLUSIVE, req_txn = 2\<rparr>]"
  using A_WriteLock_effect
    [of 2 "''x''" "snd (LockManagerA_WriteLock (1::nat) ''x'' new_manager)"]
  by (simp add: eval_defs)

section \<open>Policy A: release\<close>

text \<open>
  C6. Under policy A, \<open>Release txn key\<close> removes the first request of \<open>txn\<close> from the
  queue of \<open>key\<close> and touches no other queue. The flag \<^verbatim>\<open>removedOwner\<close> of a non-empty
  queue says whether that request was at the very front. Exactly when the front request
  was the one removed and a request follows it, the wait count of the new front
  transaction drops by one; if it reaches zero, that transaction is appended to the ready
  queue and its wait count is erased. In every other case (a waiter that is not at the
  front, a lone owner, no request of \<open>txn\<close>) the wait counts and the ready queue stay as
  they are. So after \<open>WriteLock\<close> calls of \<open>t1\<close>, \<open>t2\<close>, \<open>t3\<close> on one key of a new manager,
  releasing \<open>t1\<close> makes \<open>t2\<close> ready and leaves \<open>t3\<close> waiting.
\<close>

theorem A_Release_effect:
  "queue_of (LockManagerA_Release txn key s) key =
     takeWhile (\<lambda>r. req_txn r \<noteq> txn) (queue_of s key) @
     drop 1 (dropWhile (\<lambda>r. req_txn r \<noteq> txn) (queue_of s key)) \<and>
   (\<forall>k. k \<noteq> key \<longrightarrow> lock_table (LockManagerA_Release txn key s) k = lock_table s k) \<and>
   (queue_of s key \<noteq> [] \<longrightarrow>
      snd (A_erase_scan txn (queue_of s key) True) = (req_txn (hd (queue_of s key)) = txn)) \<and>
   (\<forall>r rest next rest'.
      queue_of s key = r # rest \<and> req_txn r = txn \<and> rest = next # rest' \<longrightarrow>
        queue_of (LockManagerA_Release txn key s) key = rest \<and>
        (if waits_get (txn_waits s) (req_txn next) - 1 = 0
         then txn_waits (LockManagerA_Release txn key s) = (txn_waits s)(req_txn next := None) \<and>
              ready_txns (LockManagerA_Release txn key s) = ready_txns s @ [req_txn next]
         else txn_waits (LockManagerA_Release txn key s) =
                (txn_waits s)(req_txn next \<mapsto> waits_get (txn_waits s) (req_txn next) - 1) \<and>
              ready_txns (LockManagerA_Release txn key s) = ready_txns s)) \<and>
   (\<not> (\<exists>r next rest'. queue_of s key = r # next # rest' \<and> req_txn r = txn) \<longrightarrow>
        txn_waits (LockManagerA_Release txn key s) = txn_waits s \<and>
        ready_txns (LockManagerA_Release txn key s) = ready_txns s) \<and>
   (t2 \<noteq> t3 \<longrightarrow>
      fst (run stepA [WriteLock t1 k1, WriteLock t2 k1, WriteLock t3 k1, Release t1 k1]
             new_manager) = [Granted True, Granted False, Granted False, Released] \<and>
      ready_txns (snd (run stepA
             [WriteLock t1 k1, WriteLock t2 k1, WriteLock t3 k1, Release t1 k1]
             new_manager)) = [t2] \<and>
      txn_waits (snd (run stepA
             [WriteLock t1 k1, WriteLock t2 k1, WriteLock t3 k1, Release t1 k1]
             new_manager)) t2 = None \<and>
      txn_waits (snd (run stepA
             [WriteLock t1 k1, WriteLock t2 k1, WriteLock t3 k1, Release t1 k1]
             new_manager)) t3 = Some 1)"
proof (intro conjI allI impI)
  show "queue_of (LockManagerA_Release txn key s) key =
     takeWhile (\<lambda>r. req_txn r \<noteq> txn) (queue_of s key) @
     drop 1 (dropWhile (\<lambda>r. req_txn r \<noteq> txn) (queue_of s key))"
    by (simp add: A_Release_eq Let_def queue_of_def B_erase_scan_eq)
next
  fix k assume "k \<noteq> key"
  then show "lock_table (LockManagerA_Release txn key s) k = lock_table s k"
    by (simp add: A_Release_eq Let_def)
next
  assume "queue_of s key \<noteq> []"
  then show "snd (A_erase_scan txn (queue_of s key) True) = (req_txn (hd (queue_of s key)) = txn)"
    by (cases "queue_of s key") (simp_all add: A_erase_scan_snd del: A_erase_scan.simps)
next
  fix r rest "next" rest'
  assume a: "queue_of s key = r # rest \<and> req_txn r = txn \<and> rest = next # rest'"
  show "queue_of (LockManagerA_Release txn key s) key = rest"
    using a by (simp add: A_Release_eq Let_def queue_of_def)
  show "if waits_get (txn_waits s) (req_txn next) - 1 = 0
         then txn_waits (LockManagerA_Release txn key s) = (txn_waits s)(req_txn next := None) \<and>
              ready_txns (LockManagerA_Release txn key s) = ready_txns s @ [req_txn next]
         else txn_waits (LockManagerA_Release txn key s) =
                (txn_waits s)(req_txn next \<mapsto> waits_get (txn_waits s) (req_txn next) - 1) \<and>
              ready_txns (LockManagerA_Release txn key s) = ready_txns s"
    using a by (simp add: A_Release_eq Let_def)
next
  assume n: "\<not> (\<exists>r next rest'. queue_of s key = r # next # rest' \<and> req_txn r = txn)"
  have "\<not> (B_erase_scan txn (queue_of s key) \<noteq> [] \<and> req_txn (hd (queue_of s key)) = txn)"
  proof (cases "queue_of s key")
    case Nil
    then show ?thesis by simp
  next
    case (Cons r rest)
    with n show ?thesis by (cases rest) auto
  qed
  then show "txn_waits (LockManagerA_Release txn key s) = txn_waits s"
    and "ready_txns (LockManagerA_Release txn key s) = ready_txns s"
    by (auto simp: A_Release_eq Let_def)
next
  assume "t2 \<noteq> t3"
  then show
    "fst (run stepA [WriteLock t1 k1, WriteLock t2 k1, WriteLock t3 k1, Release t1 k1]
             new_manager) = [Granted True, Granted False, Granted False, Released]"
    "ready_txns (snd (run stepA
             [WriteLock t1 k1, WriteLock t2 k1, WriteLock t3 k1, Release t1 k1]
             new_manager)) = [t2]"
    "txn_waits (snd (run stepA
             [WriteLock t1 k1, WriteLock t2 k1, WriteLock t3 k1, Release t1 k1]
             new_manager)) t2 = None"
    "txn_waits (snd (run stepA
             [WriteLock t1 k1, WriteLock t2 k1, WriteLock t3 k1, Release t1 k1]
             new_manager)) t3 = Some 1"
    by (simp_all add: eval_defs)
qed

text \<open>
  The theorem at the manager holding the queue of \<open>1\<close>, \<open>2\<close>, \<open>3\<close> on key \<open>x\<close>, where
  \<open>2\<close> and \<open>3\<close> wait: releasing \<open>1\<close> makes \<open>2\<close> ready; releasing the waiter \<open>3\<close> instead
  makes nobody ready.
\<close>

theorem A_Release_effect_witness:
  "queue_of (snd (run stepA [WriteLock (1::nat) ''x'', WriteLock 2 ''x'', WriteLock 3 ''x'']
       new_manager)) ''x'' \<noteq> [] \<and>
   (2::nat) \<noteq> 3 \<and>
   queue_of (LockManagerA_Release 1 ''x''
     (snd (run stepA [WriteLock (1::nat) ''x'', WriteLock 2 ''x'', WriteLock 3 ''x'']
       new_manager))) ''x'' =
     [\<lparr>req_mode = EXCLUSIVE, req_txn = 2\<rparr>, \<lparr>req_mode = EXCLUSIVE, req_txn = 3\<rparr>] \<and>
   ready_txns (LockManagerA_Release 1 ''x''
     (snd (run stepA [WriteLock (1::nat) ''x'', WriteLock 2 ''x'', WriteLock 3 ''x'']
       new_manager))) = [2] \<and>
   txn_waits (LockManagerA_Release 1 ''x''
     (snd (run stepA [WriteLock (1::nat) ''x'', WriteLock 2 ''x'', WriteLock 3 ''x'']
       new_manager))) 3 = Some 1 \<and>
   ready_txns (snd (run stepA
     [WriteLock (1::nat) ''x'', WriteLock 2 ''x'', WriteLock 3 ''x'', Release 1 ''x'']
       new_manager)) = [2]"
  using A_Release_effect
    [of 1 "''x''"
        "snd (run stepA [WriteLock (1::nat) ''x'', WriteLock 2 ''x'', WriteLock 3 ''x'']
           new_manager)" 2 3 1 "''x''"]
  by (simp add: eval_defs)

section \<open>Policy B in closed form\<close>

lemma B_Status_eq:
  "LockManagerB_Status key owners s =
     (fst (B_status_of (queue_of s key)),
      (if queue_of s key = [] then owners
       else (case owners of None \<Rightarrow> None | Some _ \<Rightarrow> Some (snd (B_status_of (queue_of s key))))),
      s\<lparr>lock_table := (lock_table s)(key \<mapsto> queue_of s key)\<rparr>)"
  by (simp add: LockManagerB_Status_def getLockQueue_eq B_status_of_def split_beta
      split: option.splits)

lemma B_WriteLock_eq:
  "LockManagerB_WriteLock txn key s =
     (fst (B_status_of (queue_of s key)) = UNLOCKED,
      s\<lparr>lock_table := (lock_table s)(key \<mapsto> queue_of s key @ [\<lparr>req_mode = EXCLUSIVE, req_txn = txn\<rparr>]),
        txn_waits := (if fst (B_status_of (queue_of s key)) = UNLOCKED then txn_waits s
                      else waits_incr (txn_waits s) txn)\<rparr>)"
  by (simp add: LockManagerB_WriteLock_def B_Status_eq getLockQueue_eq setLockQueue_def
      queue_of_upd Let_def)

lemma B_ReadLock_eq:
  "LockManagerB_ReadLock txn key s =
     (let g = (fst (B_status_of (queue_of s key)) = UNLOCKED \<or>
               noExclusive_scan (queue_of s key @ [\<lparr>req_mode = SHARED, req_txn = txn\<rparr>]))
      in (g,
      s\<lparr>lock_table := (lock_table s)(key \<mapsto> queue_of s key @ [\<lparr>req_mode = SHARED, req_txn = txn\<rparr>]),
        txn_waits := (if g then txn_waits s else waits_incr (txn_waits s) txn)\<rparr>))"
  by (simp add: LockManagerB_ReadLock_def B_Status_eq getLockQueue_eq setLockQueue_def
      LockManagerB_noExclusiveWaiting_def queue_of_upd Let_def)

lemma B_Release_eq:
  "LockManagerB_Release txn key s =
     B_wake_owners (snd (B_status_of (B_erase_scan txn (queue_of s key))))
       (s\<lparr>lock_table := (lock_table s)(key \<mapsto> B_erase_scan txn (queue_of s key))\<rparr>)"
  by (simp add: LockManagerB_Release_def B_Status_eq getLockQueue_eq setLockQueue_def
      queue_of_upd Let_def B_status_of_def)

section \<open>The walk of Status and the scan for exclusive requests\<close>

lemma noExclusive_scan_iff: "noExclusive_scan q = (EXCLUSIVE \<notin> req_mode ` set q)"
  by (induction q) auto

lemma walk_excl_present:
  "EXCLUSIVE \<in> req_mode ` set q \<Longrightarrow> fst (B_status_walk q m os) \<noteq> UNLOCKED"
  by (induction q arbitrary: m os) (auto simp: Let_def)

lemma walk_spec:
  "B_status_walk q m os =
     (if spec_owner_prefix q m = [] then m else req_mode (last (spec_owner_prefix q m)),
      os @ map req_txn (spec_owner_prefix q m))"
  by (induction q arbitrary: m os) (auto simp: Let_def)

lemma spec_prefix_take:
  "take (length (spec_owner_prefix q m)) q = spec_owner_prefix q m"
  by (induction q arbitrary: m) auto

lemma spec_prefix_seed_nonempty: "q \<noteq> [] \<Longrightarrow> spec_owner_prefix q EXCLUSIVE \<noteq> []"
  by (cases q) auto

lemma spec_prefix_shared:
  "queue_modes_ok q \<Longrightarrow> spec_owner_prefix q SHARED = takeWhile (\<lambda>r. req_mode r = SHARED) q"
  by (induction q) (auto simp: queue_modes_ok_def intro: LockMode.exhaust)

lemma spec_prefix_seed:
  "queue_modes_ok (r # rest) \<Longrightarrow>
     spec_owner_prefix (r # rest) EXCLUSIVE =
       (if req_mode r = EXCLUSIVE then [r] else takeWhile (\<lambda>r. req_mode r = SHARED) (r # rest))"
  using spec_prefix_shared[of rest]
  by (cases "req_mode r") (auto simp: queue_modes_ok_def)

lemma B_status_of_spec:
  "q \<noteq> [] \<Longrightarrow>
     B_status_of q = (req_mode (last (spec_owner_prefix q EXCLUSIVE)),
                      map req_txn (spec_owner_prefix q EXCLUSIVE))"
  using walk_spec[of q EXCLUSIVE "[]"] spec_prefix_seed_nonempty[of q]
  by (simp add: B_status_of_def)

lemma spec_prefix_seed_hd:
  assumes "q \<noteq> []" and "queue_modes_ok q"
  shows "spec_owner_prefix q EXCLUSIVE =
       (if req_mode (hd q) = EXCLUSIVE then [hd q] else takeWhile (\<lambda>r. req_mode r = SHARED) q)"
proof -
  obtain r rest where q: "q = r # rest" using assms(1) by (cases q) auto
  show ?thesis using spec_prefix_seed[of r rest] assms(2) unfolding q list.sel by simp
qed

lemma B_status_of_modes_ok:
  assumes "q \<noteq> []" and "queue_modes_ok q"
  shows "B_status_of q =
           (if req_mode (hd q) = EXCLUSIVE then (EXCLUSIVE, [req_txn (hd q)])
            else (SHARED, map req_txn (takeWhile (\<lambda>r. req_mode r = SHARED) q)))"
proof (cases "req_mode (hd q) = EXCLUSIVE")
  case True
  then have "spec_owner_prefix q EXCLUSIVE = [hd q]"
    using spec_prefix_seed_hd[OF assms] by simp
  then show ?thesis using True B_status_of_spec[OF assms(1)] by simp
next
  case False
  then have p: "spec_owner_prefix q EXCLUSIVE = takeWhile (\<lambda>r. req_mode r = SHARED) q"
    using spec_prefix_seed_hd[OF assms] by simp
  have "last (spec_owner_prefix q EXCLUSIVE) \<in> set (takeWhile (\<lambda>r. req_mode r = SHARED) q)"
    using spec_prefix_seed_nonempty[OF assms(1)] last_in_set[of "spec_owner_prefix q EXCLUSIVE"]
    unfolding p by simp
  then have "req_mode (last (spec_owner_prefix q EXCLUSIVE)) = SHARED"
    by (auto dest: set_takeWhileD)
  then show ?thesis using False B_status_of_spec[OF assms(1)] p by simp
qed

section \<open>Policy B: the read lock\<close>

text \<open>
  C3. Under policy B, \<open>ReadLock txn key\<close> appends a shared request of \<open>txn\<close> and is
  granted exactly when the status computed before the insertion is \<open>UNLOCKED\<close> or the
  queue holds no exclusive request at all, waiting ones included. The wait count of \<open>txn\<close>
  grows by one exactly when the lock is not granted; the ready queue is untouched. In
  particular, while an exclusive request is queued on the key, a read lock is refused,
  whatever the mode of the current owners.
\<close>

theorem B_ReadLock_effect:
  "fst (LockManagerB_ReadLock txn key s) =
     (fst (LockManagerB_Status key None s) = UNLOCKED \<or>
      EXCLUSIVE \<notin> req_mode ` set (queue_of s key)) \<and>
   lock_table (snd (LockManagerB_ReadLock txn key s)) =
     (lock_table s)(key \<mapsto> queue_of s key @ [\<lparr>req_mode = SHARED, req_txn = txn\<rparr>]) \<and>
   txn_waits (snd (LockManagerB_ReadLock txn key s)) =
     (if fst (LockManagerB_ReadLock txn key s) then txn_waits s
      else (txn_waits s)(txn \<mapsto> waits_get (txn_waits s) txn + 1)) \<and>
   ready_txns (snd (LockManagerB_ReadLock txn key s)) = ready_txns s \<and>
   (EXCLUSIVE \<in> req_mode ` set (queue_of s key) \<longrightarrow> \<not> fst (LockManagerB_ReadLock txn key s))"
proof -
  have "EXCLUSIVE \<in> req_mode ` set (queue_of s key) \<Longrightarrow>
          fst (B_status_of (queue_of s key)) \<noteq> UNLOCKED"
    using walk_excl_present[of "queue_of s key" EXCLUSIVE "[]"]
    by (auto simp: B_status_of_def)
  then show ?thesis
    by (auto simp: B_ReadLock_eq B_Status_eq Let_def noExclusive_scan_iff waits_incr_def)
qed

text \<open>
  The theorem at the queue \<open>S:1, E:2\<close>: the only owner is the shared request of 1, the
  exclusive request of 2 waits, and the read lock of 3 is refused.
\<close>

theorem B_ReadLock_effect_witness:
  "EXCLUSIVE \<in> req_mode ` set (queue_of
      (snd (run stepB [ReadLock (1::nat) ''y'', WriteLock 2 ''y''] new_manager)) ''y'') \<and>
   LockManagerB_Status ''y'' (Some [])
      (snd (run stepB [ReadLock (1::nat) ''y'', WriteLock 2 ''y''] new_manager)) =
      (SHARED, Some [1], snd (run stepB [ReadLock (1::nat) ''y'', WriteLock 2 ''y''] new_manager)) \<and>
   \<not> fst (LockManagerB_ReadLock 3 ''y''
      (snd (run stepB [ReadLock (1::nat) ''y'', WriteLock 2 ''y''] new_manager))) \<and>
   txn_waits (snd (LockManagerB_ReadLock 3 ''y''
      (snd (run stepB [ReadLock (1::nat) ''y'', WriteLock 2 ''y''] new_manager)))) 3 = Some 1"
  using B_ReadLock_effect [of 3 "''y''"
      "snd (run stepB [ReadLock (1::nat) ''y'', WriteLock 2 ''y''] new_manager)"]
  by (simp add: eval_defs)

section \<open>Policy B: the scenario on one key\<close>

text \<open>
  C5. Under policy B, on a new manager and one key: read locks of 1 and 2 are granted, the
  write lock of 3 and the read lock of 4 are refused and leave 3 and 4 with wait count 1.
  Releasing 1 makes nobody ready and leaves 2 as the owner; releasing 2 makes 3 ready and
  the owner; releasing 3 makes 4 ready and the owner.
\<close>

theorem B_scenario:
  "fst (run stepB
     [ReadLock (1::nat) ''y'', ReadLock 2 ''y'', WriteLock 3 ''y'', ReadLock 4 ''y'',
      Release 1 ''y'', Release 2 ''y'', Release 3 ''y''] new_manager) =
     [Granted True, Granted True, Granted False, Granted False, Released, Released, Released] \<and>
   queue_of (snd (run stepB [ReadLock (1::nat) ''y'', ReadLock 2 ''y''] new_manager)) ''y'' =
     [\<lparr>req_mode = SHARED, req_txn = 1\<rparr>, \<lparr>req_mode = SHARED, req_txn = 2\<rparr>] \<and>
   txn_waits (snd (run stepB
     [ReadLock (1::nat) ''y'', ReadLock 2 ''y'', WriteLock 3 ''y''] new_manager)) 3 = Some 1 \<and>
   txn_waits (snd (run stepB
     [ReadLock (1::nat) ''y'', ReadLock 2 ''y'', WriteLock 3 ''y'', ReadLock 4 ''y'']
     new_manager)) 4 = Some 1 \<and>
   txn_waits (snd (run stepB
     [ReadLock (1::nat) ''y'', ReadLock 2 ''y'', WriteLock 3 ''y'', ReadLock 4 ''y'']
     new_manager)) 3 = Some 1 \<and>
   ready_txns (snd (run stepB
     [ReadLock (1::nat) ''y'', ReadLock 2 ''y'', WriteLock 3 ''y'', ReadLock 4 ''y'']
     new_manager)) = [] \<and>
   ready_txns (snd (run stepB
     [ReadLock (1::nat) ''y'', ReadLock 2 ''y'', WriteLock 3 ''y'', ReadLock 4 ''y'',
      Release 1 ''y''] new_manager)) = [] \<and>
   txn_waits (snd (run stepB
     [ReadLock (1::nat) ''y'', ReadLock 2 ''y'', WriteLock 3 ''y'', ReadLock 4 ''y'',
      Release 1 ''y''] new_manager)) = [3 \<mapsto> 1, 4 \<mapsto> 1] \<and>
   last (fst (run stepB
     [ReadLock (1::nat) ''y'', ReadLock 2 ''y'', WriteLock 3 ''y'', ReadLock 4 ''y'',
      Release 1 ''y'', Status ''y''] new_manager)) = Owners SHARED [2] \<and>
   ready_txns (snd (run stepB
     [ReadLock (1::nat) ''y'', ReadLock 2 ''y'', WriteLock 3 ''y'', ReadLock 4 ''y'',
      Release 1 ''y'', Release 2 ''y''] new_manager)) = [3] \<and>
   last (fst (run stepB
     [ReadLock (1::nat) ''y'', ReadLock 2 ''y'', WriteLock 3 ''y'', ReadLock 4 ''y'',
      Release 1 ''y'', Release 2 ''y'', Status ''y''] new_manager)) = Owners EXCLUSIVE [3] \<and>
   ready_txns (snd (run stepB
     [ReadLock (1::nat) ''y'', ReadLock 2 ''y'', WriteLock 3 ''y'', ReadLock 4 ''y'',
      Release 1 ''y'', Release 2 ''y'', Release 3 ''y''] new_manager)) = [3, 4] \<and>
   last (fst (run stepB
     [ReadLock (1::nat) ''y'', ReadLock 2 ''y'', WriteLock 3 ''y'', ReadLock 4 ''y'',
      Release 1 ''y'', Release 2 ''y'', Release 3 ''y'', Status ''y''] new_manager)) =
     Owners SHARED [4] \<and>
   txn_waits (snd (run stepB
     [ReadLock (1::nat) ''y'', ReadLock 2 ''y'', WriteLock 3 ''y'', ReadLock 4 ''y'',
      Release 1 ''y'', Release 2 ''y'', Release 3 ''y''] new_manager)) = Map.empty"
  by (simp add: eval_defs)

section \<open>Waking the new owners\<close>

lemma wake_lock_table: "lock_table (B_wake_owners os s) = lock_table s"
  by (induction os arbitrary: s) (auto split: option.splits)

lemma wake_untouched: "t \<notin> set os \<Longrightarrow> txn_waits (B_wake_owners os s) t = txn_waits s t"
  by (induction os arbitrary: s) (auto split: option.splits)


lemma wake_frame:
  "txn_waits s = txn_waits u \<Longrightarrow> ready_txns s = ready_txns u \<Longrightarrow>
     txn_waits (B_wake_owners os s) = txn_waits (B_wake_owners os u) \<and>
     ready_txns (B_wake_owners os s) = ready_txns (B_wake_owners os u)"
proof (induction os arbitrary: s u)
  case Nil
  then show ?case by simp
next
  case (Cons owner rest)
  show ?case
  proof (cases "txn_waits s owner")
    case None
    then show ?thesis using Cons.IH[of s u] Cons.prems by simp
  next
    case (Some c)
    show ?thesis
    proof (cases "c - 1 = 0")
      case True
      then show ?thesis
        using Some Cons.prems
          Cons.IH[of "s\<lparr>ready_txns := ready_txns s @ [owner], txn_waits := (txn_waits s)(owner := None)\<rparr>"
                     "u\<lparr>ready_txns := ready_txns u @ [owner], txn_waits := (txn_waits u)(owner := None)\<rparr>"]
        by simp
    next
      case False
      then show ?thesis
        using Some Cons.prems
          Cons.IH[of "s\<lparr>txn_waits := (txn_waits s)(owner \<mapsto> c - 1)\<rparr>"
                     "u\<lparr>txn_waits := (txn_waits u)(owner \<mapsto> c - 1)\<rparr>"]
        by simp
    qed
  qed
qed

section \<open>The ready queue grows exactly by the erased wait counts\<close>









lemma run_snd_Cons: "snd (run step (c # cs) s) = snd (run step cs (snd (step c s)))"
  by (simp add: split_beta)


section \<open>Operations depend only on what can be observed\<close>

lemma queue_of_fun_upd:
  "lock_table s' = (lock_table s)(key \<mapsto> dq) \<Longrightarrow> queue_of s' = (queue_of s)(key := dq)"
  by (rule ext) (simp add: queue_of_def)

lemma observe_lazy: "observe (s\<lparr>lock_table := (lock_table s)(key \<mapsto> queue_of s key)\<rparr>) = observe s"
  by (simp add: observe_def queue_of_fun_upd[where s = s and key = key and dq = "queue_of s key"])

lemma observe_eqD:
  "observe s = observe u \<Longrightarrow> queue_of s = queue_of u \<and> txn_waits s = txn_waits u \<and> ready_txns s = ready_txns u"
  by (simp add: observe_def)

lemma A_WriteLock_observe:
  assumes "observe s = observe u"
  shows "fst (LockManagerA_WriteLock txn key s) = fst (LockManagerA_WriteLock txn key u) \<and>
         observe (snd (LockManagerA_WriteLock txn key s)) = observe (snd (LockManagerA_WriteLock txn key u))"
proof -
  note e = observe_eqD[OF assms]
  have "queue_of (snd (LockManagerA_WriteLock txn key s)) =
          (queue_of s)(key := queue_of s key @ [\<lparr>req_mode = EXCLUSIVE, req_txn = txn\<rparr>])"
    by (rule queue_of_fun_upd) (simp add: A_WriteLock_eq)
  moreover have "queue_of (snd (LockManagerA_WriteLock txn key u)) =
          (queue_of u)(key := queue_of u key @ [\<lparr>req_mode = EXCLUSIVE, req_txn = txn\<rparr>])"
    by (rule queue_of_fun_upd) (simp add: A_WriteLock_eq)
  ultimately show ?thesis using e by (simp add: observe_def A_WriteLock_eq)
qed

lemma A_Release_table:
  "lock_table (LockManagerA_Release txn key s) = (lock_table s)(key \<mapsto> B_erase_scan txn (queue_of s key))"
  by (simp add: A_Release_eq Let_def)

lemma A_Release_observe:
  assumes "observe s = observe u"
  shows "observe (LockManagerA_Release txn key s) = observe (LockManagerA_Release txn key u)"
proof -
  note e = observe_eqD[OF assms]
  have q: "queue_of (LockManagerA_Release txn key s) = queue_of (LockManagerA_Release txn key u)"
    using queue_of_fun_upd[OF A_Release_table[of txn key s]]
      queue_of_fun_upd[OF A_Release_table[of txn key u]] e by simp
  have "txn_waits (LockManagerA_Release txn key s) = txn_waits (LockManagerA_Release txn key u) \<and>
        ready_txns (LockManagerA_Release txn key s) = ready_txns (LockManagerA_Release txn key u)"
    using e by (simp add: A_Release_eq Let_def)
  then show ?thesis using q by (simp add: observe_def)
qed

lemma A_Status_state:
  "snd (snd (LockManagerA_Status key os s)) = s\<lparr>lock_table := (lock_table s)(key \<mapsto> queue_of s key)\<rparr>"
  by (simp add: A_Status_eq)

lemma A_Status_observe:
  assumes "observe s = observe u"
  shows "fst (LockManagerA_Status key os s) = fst (LockManagerA_Status key os u) \<and>
         fst (snd (LockManagerA_Status key os s)) = fst (snd (LockManagerA_Status key os u)) \<and>
         observe (snd (snd (LockManagerA_Status key os s))) = observe (snd (snd (LockManagerA_Status key os u)))"
proof -
  have "observe (snd (snd (LockManagerA_Status key os s))) = observe (snd (snd (LockManagerA_Status key os u)))"
    unfolding A_Status_state observe_lazy by (rule assms)
  then show ?thesis using observe_eqD[OF assms] by (simp add: A_Status_eq)
qed

lemma stepA_observe:
  assumes "observe s = observe u"
  shows "fst (stepA c s) = fst (stepA c u) \<and> observe (snd (stepA c s)) = observe (snd (stepA c u))"
proof (cases c)
  case (ReadLock txn key)
  then show ?thesis using A_WriteLock_observe[OF assms, of txn key]
    by (simp add: LockManagerA_ReadLock_def split_beta)
next
  case (WriteLock txn key)
  then show ?thesis using A_WriteLock_observe[OF assms, of txn key] by (simp add: split_beta)
next
  case (Release txn key)
  then show ?thesis using A_Release_observe[OF assms, of txn key] by simp
next
  case (Status key)
  then show ?thesis using A_Status_observe[OF assms, of key "[]"] by (simp add: split_beta)
qed

lemma B_WriteLock_observe:
  assumes "observe s = observe u"
  shows "fst (LockManagerB_WriteLock txn key s) = fst (LockManagerB_WriteLock txn key u) \<and>
         observe (snd (LockManagerB_WriteLock txn key s)) = observe (snd (LockManagerB_WriteLock txn key u))"
proof -
  note e = observe_eqD[OF assms]
  have "queue_of (snd (LockManagerB_WriteLock txn key s)) =
          (queue_of s)(key := queue_of s key @ [\<lparr>req_mode = EXCLUSIVE, req_txn = txn\<rparr>])"
    by (rule queue_of_fun_upd) (simp add: B_WriteLock_eq)
  moreover have "queue_of (snd (LockManagerB_WriteLock txn key u)) =
          (queue_of u)(key := queue_of u key @ [\<lparr>req_mode = EXCLUSIVE, req_txn = txn\<rparr>])"
    by (rule queue_of_fun_upd) (simp add: B_WriteLock_eq)
  ultimately show ?thesis using e by (simp add: observe_def B_WriteLock_eq)
qed

lemma B_ReadLock_observe:
  assumes "observe s = observe u"
  shows "fst (LockManagerB_ReadLock txn key s) = fst (LockManagerB_ReadLock txn key u) \<and>
         observe (snd (LockManagerB_ReadLock txn key s)) = observe (snd (LockManagerB_ReadLock txn key u))"
proof -
  note e = observe_eqD[OF assms]
  have "queue_of (snd (LockManagerB_ReadLock txn key s)) =
          (queue_of s)(key := queue_of s key @ [\<lparr>req_mode = SHARED, req_txn = txn\<rparr>])"
    by (rule queue_of_fun_upd) (simp add: B_ReadLock_eq Let_def)
  moreover have "queue_of (snd (LockManagerB_ReadLock txn key u)) =
          (queue_of u)(key := queue_of u key @ [\<lparr>req_mode = SHARED, req_txn = txn\<rparr>])"
    by (rule queue_of_fun_upd) (simp add: B_ReadLock_eq Let_def)
  ultimately show ?thesis using e by (simp add: observe_def B_ReadLock_eq Let_def)
qed

lemma B_Release_table:
  "lock_table (LockManagerB_Release txn key s) = (lock_table s)(key \<mapsto> B_erase_scan txn (queue_of s key))"
  by (simp add: B_Release_eq wake_lock_table)

lemma B_Release_observe:
  assumes "observe s = observe u"
  shows "observe (LockManagerB_Release txn key s) = observe (LockManagerB_Release txn key u)"
proof -
  note e = observe_eqD[OF assms]
  have q: "queue_of (LockManagerB_Release txn key s) = queue_of (LockManagerB_Release txn key u)"
    using queue_of_fun_upd[OF B_Release_table[of txn key s]]
      queue_of_fun_upd[OF B_Release_table[of txn key u]] e by simp
  have "txn_waits (LockManagerB_Release txn key s) = txn_waits (LockManagerB_Release txn key u) \<and>
        ready_txns (LockManagerB_Release txn key s) = ready_txns (LockManagerB_Release txn key u)"
  proof -
    have qs: "queue_of s key = queue_of u key" using e by simp
    show ?thesis unfolding B_Release_eq qs by (rule wake_frame) (simp_all add: e)
  qed
  then show ?thesis using q by (simp add: observe_def)
qed

lemma B_Status_state:
  "snd (snd (LockManagerB_Status key os s)) = s\<lparr>lock_table := (lock_table s)(key \<mapsto> queue_of s key)\<rparr>"
  by (simp add: B_Status_eq)

lemma B_Status_observe:
  assumes "observe s = observe u"
  shows "fst (LockManagerB_Status key os s) = fst (LockManagerB_Status key os u) \<and>
         fst (snd (LockManagerB_Status key os s)) = fst (snd (LockManagerB_Status key os u)) \<and>
         observe (snd (snd (LockManagerB_Status key os s))) = observe (snd (snd (LockManagerB_Status key os u)))"
proof -
  have "observe (snd (snd (LockManagerB_Status key os s))) = observe (snd (snd (LockManagerB_Status key os u)))"
    unfolding B_Status_state observe_lazy by (rule assms)
  then show ?thesis using observe_eqD[OF assms] by (simp add: B_Status_eq split: option.splits)
qed

lemma stepB_observe:
  assumes "observe s = observe u"
  shows "fst (stepB c s) = fst (stepB c u) \<and> observe (snd (stepB c s)) = observe (snd (stepB c u))"
proof (cases c)
  case (ReadLock txn key)
  then show ?thesis using B_ReadLock_observe[OF assms, of txn key] by (simp add: split_beta)
next
  case (WriteLock txn key)
  then show ?thesis using B_WriteLock_observe[OF assms, of txn key] by (simp add: split_beta)
next
  case (Release txn key)
  then show ?thesis using B_Release_observe[OF assms, of txn key] by simp
next
  case (Status key)
  then show ?thesis using B_Status_observe[OF assms, of key "Some []"] by (simp add: split_beta)
qed

lemma run_observe:
  assumes st: "\<And>c s u. observe s = observe u \<Longrightarrow>
                 fst (step c s) = fst (step c u) \<and> observe (snd (step c s)) = observe (snd (step c u))"
    and "observe s = observe u"
  shows "fst (run step cs s) = fst (run step cs u) \<and>
         observe (snd (run step cs s)) = observe (snd (run step cs u))"
  using assms(2)
proof (induction cs arbitrary: s u)
  case Nil
  then show ?case by simp
next
  case (Cons c cs)
  have 1: "fst (step c s) = fst (step c u)" and 2: "observe (snd (step c s)) = observe (snd (step c u))"
    using st[OF Cons.prems, of c] by simp_all
  show ?case using Cons.IH[OF 2] 1 by (simp add: split_beta)
qed

section \<open>Status changes nothing that can be observed\<close>

text \<open>
  C9. Under both policies, \<open>Status\<close> leaves the wait counts and the ready queue as they
  are and changes the lock table at most by creating the (empty) queue of a key that had
  none: every key's queue reads the same before and after. That creation is invisible to
  any later sequence of calls: started after the \<open>Status\<close> call or without it, the
  sequence returns the same outcomes and ends in managers with the same queues, wait
  counts and ready queue.
\<close>

lemma lazy_creation:
  "s\<lparr>lock_table := (lock_table s)(key \<mapsto> queue_of s key)\<rparr> =
     (if lock_table s key = None then s\<lparr>lock_table := (lock_table s)(key \<mapsto> [])\<rparr> else s)"
  by (auto simp: queue_of_def map_upd_triv)

theorem Status_is_pure:
  "snd (snd (LockManagerA_Status key ownersA s)) =
     (if lock_table s key = None then s\<lparr>lock_table := (lock_table s)(key \<mapsto> [])\<rparr> else s) \<and>
   snd (snd (LockManagerB_Status key ownersB s)) =
     (if lock_table s key = None then s\<lparr>lock_table := (lock_table s)(key \<mapsto> [])\<rparr> else s) \<and>
   observe (snd (snd (LockManagerA_Status key ownersA s))) = observe s \<and>
   observe (snd (snd (LockManagerB_Status key ownersB s))) = observe s \<and>
   fst (run stepA cs (snd (snd (LockManagerA_Status key ownersA s)))) = fst (run stepA cs s) \<and>
   observe (snd (run stepA cs (snd (snd (LockManagerA_Status key ownersA s))))) =
     observe (snd (run stepA cs s)) \<and>
   fst (run stepB cs (snd (snd (LockManagerB_Status key ownersB s)))) = fst (run stepB cs s) \<and>
   observe (snd (run stepB cs (snd (snd (LockManagerB_Status key ownersB s))))) =
     observe (snd (run stepB cs s))"
proof -
  have a: "snd (snd (LockManagerA_Status key ownersA s)) =
     (if lock_table s key = None then s\<lparr>lock_table := (lock_table s)(key \<mapsto> [])\<rparr> else s)"
    unfolding A_Status_state by (rule lazy_creation)
  have b: "snd (snd (LockManagerB_Status key ownersB s)) =
     (if lock_table s key = None then s\<lparr>lock_table := (lock_table s)(key \<mapsto> [])\<rparr> else s)"
    unfolding B_Status_state by (rule lazy_creation)
  have oa: "observe (snd (snd (LockManagerA_Status key ownersA s))) = observe s"
    unfolding A_Status_state by (rule observe_lazy)
  have ob: "observe (snd (snd (LockManagerB_Status key ownersB s))) = observe s"
    unfolding B_Status_state by (rule observe_lazy)
  show ?thesis
    using a b oa ob run_observe[of stepA, OF stepA_observe oa, of cs]
      run_observe[of stepB, OF stepB_observe ob, of cs]
    by (intro conjI) simp_all
qed

section \<open>An erased wait count was positive\<close>








section \<open>Policy A: a wait count covers the ungranted requests\<close>






lemma erase_front: "q \<noteq> [] \<Longrightarrow> req_txn (hd q) = tx \<Longrightarrow> B_erase_scan tx q = tl q"
  by (cases q) auto









lemma run_invariant:
  assumes "\<And>c s. I s \<Longrightarrow> I (snd (step c s))"
  shows "I s \<Longrightarrow> I (snd (run step cs s))"
proof (induction cs arbitrary: s)
  case Nil
  then show ?case by simp
next
  case (Cons c cs)
  show ?case using Cons.IH[OF assms[OF Cons.prems, of c]] by (simp add: run_snd_Cons del: run.simps)
qed



section \<open>When a transaction is made ready\<close>




text \<open>
  Under policy B, \<open>Release\<close> decrements the count of every owner that has one, also of an
  owner that held its lock already and waits for another key: here 2 shares \<open>x\<close> with 1
  and waits for \<open>y\<close> behind 3; releasing 1 from \<open>x\<close> makes 2 ready while its request on
  \<open>y\<close> still waits.
\<close>

lemma B_Release_wakes_waiting_owner:
  "fst (run stepB
     [ReadLock (1::nat) ''x'', ReadLock 2 ''x'', WriteLock 3 ''y'', WriteLock 2 ''y'',
      Release 1 ''x''] new_manager) =
     [Granted True, Granted True, Granted True, Granted False, Released] \<and>
   ready_txns (snd (run stepB
     [ReadLock (1::nat) ''x'', ReadLock 2 ''x'', WriteLock 3 ''y'', WriteLock 2 ''y'',
      Release 1 ''x''] new_manager)) = [2] \<and>
   queue_of (snd (run stepB
     [ReadLock (1::nat) ''x'', ReadLock 2 ''x'', WriteLock 3 ''y'', WriteLock 2 ''y'',
      Release 1 ''x''] new_manager)) ''y'' =
     [\<lparr>req_mode = EXCLUSIVE, req_txn = 3\<rparr>, \<lparr>req_mode = EXCLUSIVE, req_txn = 2\<rparr>]"
  by (simp add: eval_defs)

section \<open>Releasing a request that is not queued\<close>

text \<open>
  C2. Releasing a pair with no request in the queue should change nothing. Under policy B
  it does: transaction 1 owns \<open>x\<close> and waits for \<open>y\<close> behind 2; transaction 9 has no
  request on \<open>x\<close>, yet \<open>Release 9 x\<close> erases the wait count of 1 and makes 1 ready, while
  its request on \<open>y\<close> still waits.
\<close>

theorem B_Release_absent_wakes_owner:
  "9 \<notin> req_txn ` set (queue_of (snd (run stepB
      [WriteLock (1::nat) ''x'', WriteLock 2 ''y'', WriteLock 1 ''y''] new_manager)) ''x'') \<and>
   txn_waits (snd (run stepB
      [WriteLock (1::nat) ''x'', WriteLock 2 ''y'', WriteLock 1 ''y''] new_manager)) 1 = Some 1 \<and>
   ready_txns (snd (run stepB
      [WriteLock (1::nat) ''x'', WriteLock 2 ''y'', WriteLock 1 ''y''] new_manager)) = [] \<and>
   txn_waits (LockManagerB_Release 9 ''x'' (snd (run stepB
      [WriteLock (1::nat) ''x'', WriteLock 2 ''y'', WriteLock 1 ''y''] new_manager))) 1 = None \<and>
   ready_txns (LockManagerB_Release 9 ''x'' (snd (run stepB
      [WriteLock (1::nat) ''x'', WriteLock 2 ''y'', WriteLock 1 ''y''] new_manager))) = [1] \<and>
   queue_of (LockManagerB_Release 9 ''x'' (snd (run stepB
      [WriteLock (1::nat) ''x'', WriteLock 2 ''y'', WriteLock 1 ''y''] new_manager))) ''y'' =
     [\<lparr>req_mode = EXCLUSIVE, req_txn = 2\<rparr>, \<lparr>req_mode = EXCLUSIVE, req_txn = 1\<rparr>]"
  by (simp add: eval_defs)

text \<open>
  Under policy A the same call changes nothing that can be observed, and \<open>Status\<close>
  reports the same mode and owners for every key.
\<close>

lemma A_Release_absent:
  assumes "txn \<notin> req_txn ` set (queue_of s key)"
  shows "observe (LockManagerA_Release txn key s) = observe s \<and>
         fst (LockManagerA_Status k os (LockManagerA_Release txn key s)) = fst (LockManagerA_Status k os s) \<and>
         fst (snd (LockManagerA_Status k os (LockManagerA_Release txn key s))) =
           fst (snd (LockManagerA_Status k os s))"
proof -
  have e: "B_erase_scan txn (queue_of s key) = queue_of s key"
    using assms by (rule B_erase_scan_absent)
  have h: "queue_of s key \<noteq> [] \<Longrightarrow> req_txn (hd (queue_of s key)) \<noteq> txn"
    using assms by (cases "queue_of s key") auto
  have "LockManagerA_Release txn key s = s\<lparr>lock_table := (lock_table s)(key \<mapsto> queue_of s key)\<rparr>"
    using h by (auto simp: A_Release_eq e Let_def)
  then have o: "observe (LockManagerA_Release txn key s) = observe s"
    by (simp add: observe_lazy)
  show ?thesis using o A_Status_observe[OF o, of k os] by simp
qed

section \<open>Release and the wait count of the releasing transaction\<close>

lemma filter_none: "length (filter P xs) = 0 \<Longrightarrow> filter (\<lambda>x. \<not> P x) xs = xs"
  by (induction xs) (auto split: if_splits)

lemma erase_single:
  "length (filter (\<lambda>r. req_txn r = txn) q) \<le> 1 \<Longrightarrow>
     B_erase_scan txn q = filter (\<lambda>r. req_txn r \<noteq> txn) q"
proof (induction q)
  case Nil
  then show ?case by simp
next
  case (Cons r rest)
  show ?case
  proof (cases "req_txn r = txn")
    case True
    then have "length (filter (\<lambda>r. req_txn r = txn) rest) = 0" using Cons.prems by simp
    then have "filter (\<lambda>r. req_txn r \<noteq> txn) rest = rest" by (rule filter_none)
    then show ?thesis using True by simp
  next
    case False
    then show ?thesis using Cons by simp
  qed
qed

lemma status_owners_subset: "set (snd (B_status_of q)) \<subseteq> req_txn ` set q"
proof (cases "q = []")
  case True
  then show ?thesis by (simp add: B_status_of_def)
next
  case False
  have "set (spec_owner_prefix q EXCLUSIVE) \<subseteq> set q"
    using spec_prefix_take[of q EXCLUSIVE] set_take_subset[of "length (spec_owner_prefix q EXCLUSIVE)" q]
    by simp
  then show ?thesis using B_status_of_spec[OF False] by auto
qed

lemma A_Release_queue: "queue_of (LockManagerA_Release txn key s) key = B_erase_scan txn (queue_of s key)"
  by (simp add: queue_of_def A_Release_table)

lemma B_Release_queue: "queue_of (LockManagerB_Release txn key s) key = B_erase_scan txn (queue_of s key)"
  by (simp add: queue_of_def B_Release_table)

lemma A_Release_changes_front:
  assumes "txn_waits (LockManagerA_Release tx k s) t \<noteq> txn_waits s t"
  shows "queue_of (LockManagerA_Release tx k s) k \<noteq> [] \<and>
         req_txn (hd (queue_of (LockManagerA_Release tx k s) k)) = t"
proof -
  let ?q' = "B_erase_scan tx (queue_of s k)"
  have c: "?q' \<noteq> [] \<and> req_txn (hd (queue_of s k)) = tx"
  proof (rule ccontr)
    assume n: "\<not> (?q' \<noteq> [] \<and> req_txn (hd (queue_of s k)) = tx)"
    have "txn_waits (LockManagerA_Release tx k s) = txn_waits s"
      unfolding A_Release_waits by (simp only: n if_False)
    then show False using assms by simp
  qed
  have "req_txn (hd ?q') = t"
  proof (rule ccontr)
    assume "req_txn (hd ?q') \<noteq> t"
    then have "txn_waits (LockManagerA_Release tx k s) t = txn_waits s t"
      unfolding A_Release_waits by simp
    then show False using assms by simp
  qed
  then show ?thesis using c by (simp add: A_Release_queue)
qed

lemma B_Release_changes_owner:
  assumes "txn_waits (LockManagerB_Release tx k s) t \<noteq> txn_waits s t"
  shows "t \<in> set (snd (B_status_of (queue_of (LockManagerB_Release tx k s) k)))"
proof (rule ccontr)
  assume "t \<notin> set (snd (B_status_of (queue_of (LockManagerB_Release tx k s) k)))"
  then have "t \<notin> set (snd (B_status_of (B_erase_scan tx (queue_of s k))))"
    by (simp add: B_Release_queue)
  then have "txn_waits (LockManagerB_Release tx k s) t = txn_waits s t"
    unfolding B_Release_eq by (simp add: wake_untouched)
  then show False using assms by simp
qed

lemma A_Release_single_queue:
  assumes "length (filter (\<lambda>r. req_txn r = txn) (queue_of s key)) \<le> 1"
  shows "queue_of (LockManagerA_Release txn key s) key =
       filter (\<lambda>r. req_txn r \<noteq> txn) (queue_of s key)"
    using erase_single[OF assms] by (simp add: A_Release_queue)

lemma B_Release_single_queue:
  assumes "length (filter (\<lambda>r. req_txn r = txn) (queue_of s key)) \<le> 1"
  shows "queue_of (LockManagerB_Release txn key s) key =
       filter (\<lambda>r. req_txn r \<noteq> txn) (queue_of s key)"
    using erase_single[OF assms] by (simp add: B_Release_queue)

lemma A_Release_single_own:
  assumes "length (filter (\<lambda>r. req_txn r = txn) (queue_of s key)) \<le> 1"
  shows "txn_waits (LockManagerA_Release txn key s) txn = txn_waits s txn"
proof (rule ccontr)
  assume "txn_waits (LockManagerA_Release txn key s) txn \<noteq> txn_waits s txn"
  from A_Release_changes_front[OF this]
  have ne: "queue_of (LockManagerA_Release txn key s) key \<noteq> []"
    and hd: "req_txn (hd (queue_of (LockManagerA_Release txn key s) key)) = txn" by simp_all
  have "hd (queue_of (LockManagerA_Release txn key s) key)
          \<in> set (queue_of (LockManagerA_Release txn key s) key)"
    using ne by (rule hd_in_set)
  then have "hd (queue_of (LockManagerA_Release txn key s) key)
          \<in> set (filter (\<lambda>r. req_txn r \<noteq> txn) (queue_of s key))"
    by (simp only: A_Release_single_queue[OF assms])
  then have "req_txn (hd (queue_of (LockManagerA_Release txn key s) key)) \<noteq> txn"
    by simp
  then show False using hd by simp
qed

lemma B_Release_single_own:
  assumes "length (filter (\<lambda>r. req_txn r = txn) (queue_of s key)) \<le> 1"
  shows "txn_waits (LockManagerB_Release txn key s) txn = txn_waits s txn"
proof (rule ccontr)
  assume "txn_waits (LockManagerB_Release txn key s) txn \<noteq> txn_waits s txn"
  then have "txn \<in> set (snd (B_status_of (queue_of (LockManagerB_Release txn key s) key)))"
    by (rule B_Release_changes_owner)
  then have "txn \<in> req_txn ` set (queue_of (LockManagerB_Release txn key s) key)"
    using status_owners_subset[of "queue_of (LockManagerB_Release txn key s) key"] by (rule rev_subsetD)
  then have "txn \<in> req_txn ` set (filter (\<lambda>r. req_txn r \<noteq> txn) (queue_of s key))"
    by (simp only: B_Release_single_queue[OF assms])
  then show False by auto
qed

lemma A_Release_changes_becomes:
  assumes "txn_waits (LockManagerA_Release tx k s) t \<noteq> txn_waits s t"
  shows "queue_of s k \<noteq> [] \<and> req_txn (hd (queue_of s k)) = tx \<and>
         tl (queue_of s k) \<noteq> [] \<and> req_txn (hd (tl (queue_of s k))) = t \<and>
         queue_of (LockManagerA_Release tx k s) k = tl (queue_of s k) \<and>
         waits_get (txn_waits (LockManagerA_Release tx k s)) t = waits_get (txn_waits s) t - 1"
proof -
  let ?q' = "B_erase_scan tx (queue_of s k)"
  have c: "?q' \<noteq> [] \<and> req_txn (hd (queue_of s k)) = tx"
  proof (rule ccontr)
    assume n: "\<not> (?q' \<noteq> [] \<and> req_txn (hd (queue_of s k)) = tx)"
    have "txn_waits (LockManagerA_Release tx k s) = txn_waits s"
      unfolding A_Release_waits by (simp only: n if_False)
    then show False using assms by simp
  qed
  then have ne: "queue_of s k \<noteq> []" by auto
  have q': "?q' = tl (queue_of s k)" using erase_front[OF ne] c by simp
  have fr: "req_txn (hd ?q') = t"
    using A_Release_changes_front[OF assms] by (simp add: A_Release_queue)
  have w: "waits_get (txn_waits (LockManagerA_Release tx k s)) t = waits_get (txn_waits s) t - 1"
    unfolding A_Release_waits using c fr by (simp add: waits_get_def)
  show ?thesis using c ne q' fr w by (simp add: A_Release_queue)
qed

lemma stepA_other_calls_keep_or_raise:
  "\<forall>tx k. c \<noteq> Release tx k \<Longrightarrow>
     waits_get (txn_waits s) t \<le> waits_get (txn_waits (snd (stepA c s))) t"
  by (cases c)
     (auto simp: LockManagerA_ReadLock_def A_WriteLock_eq A_Status_eq waits_incr_def waits_get_def)

text \<open>
  C10, as amended. Under both policies, when \<open>txn\<close> has at most one request in the queue
  of \<open>key\<close> (the discipline the specification assumes), \<open>Release txn key\<close> removes that
  request, keeps the other requests in their order, and leaves the wait count of \<open>txn\<close>
  itself as it was, whether or not the request had been granted. Under policy A, in every
  manager, the wait count of a transaction \<open>t\<close> is reduced only by a promotion in which
  \<open>t\<close> becomes an owner: a call other than \<open>Release\<close> never lowers it, and a \<open>Release\<close>
  call, by whomever and on whatever key, changes it only when the released request was
  the front of that key's queue and the request right behind it, which was waiting, is a
  request of \<open>t\<close>; that request is the front afterwards and the count of \<open>t\<close> is one less.
\<close>

theorem Release_keeps_own_count:
  assumes "length (filter (\<lambda>r. req_txn r = txn) (queue_of s key)) \<le> 1"
  shows
    "queue_of (LockManagerA_Release txn key s) key =
       filter (\<lambda>r. req_txn r \<noteq> txn) (queue_of s key) \<and>
     queue_of (LockManagerB_Release txn key s) key =
       filter (\<lambda>r. req_txn r \<noteq> txn) (queue_of s key) \<and>
     txn_waits (LockManagerA_Release txn key s) txn = txn_waits s txn \<and>
     txn_waits (LockManagerB_Release txn key s) txn = txn_waits s txn \<and>
     (txn_waits (LockManagerA_Release tx k s) t \<noteq> txn_waits s t \<longrightarrow>
        queue_of s k \<noteq> [] \<and> req_txn (hd (queue_of s k)) = tx \<and>
        tl (queue_of s k) \<noteq> [] \<and> req_txn (hd (tl (queue_of s k))) = t \<and>
        queue_of (LockManagerA_Release tx k s) k = tl (queue_of s k) \<and>
        waits_get (txn_waits (LockManagerA_Release tx k s)) t = waits_get (txn_waits s) t - 1) \<and>
     ((\<forall>tx k. c \<noteq> Release tx k) \<longrightarrow>
        waits_get (txn_waits s) t \<le> waits_get (txn_waits (snd (stepA c s))) t)"
proof -
  have 1: "queue_of (LockManagerA_Release txn key s) key =
       filter (\<lambda>r. req_txn r \<noteq> txn) (queue_of s key)"
    using assms by (rule A_Release_single_queue)
  have 2: "queue_of (LockManagerB_Release txn key s) key =
       filter (\<lambda>r. req_txn r \<noteq> txn) (queue_of s key)"
    using assms by (rule B_Release_single_queue)
  have 3: "txn_waits (LockManagerA_Release txn key s) txn = txn_waits s txn"
    using assms by (rule A_Release_single_own)
  have 4: "txn_waits (LockManagerB_Release txn key s) txn = txn_waits s txn"
    using assms by (rule B_Release_single_own)
  have 5: "txn_waits (LockManagerA_Release tx k s) t \<noteq> txn_waits s t \<longrightarrow>
        queue_of s k \<noteq> [] \<and> req_txn (hd (queue_of s k)) = tx \<and>
        tl (queue_of s k) \<noteq> [] \<and> req_txn (hd (tl (queue_of s k))) = t \<and>
        queue_of (LockManagerA_Release tx k s) k = tl (queue_of s k) \<and>
        waits_get (txn_waits (LockManagerA_Release tx k s)) t = waits_get (txn_waits s) t - 1"
    by (rule impI) (rule A_Release_changes_becomes)
  have 6: "(\<forall>tx k. c \<noteq> Release tx k) \<longrightarrow>
        waits_get (txn_waits s) t \<le> waits_get (txn_waits (snd (stepA c s))) t"
    by (rule impI) (rule stepA_other_calls_keep_or_raise)
  show ?thesis using 1 2 3 4 5 6 by (intro conjI)
qed

text \<open>
  The theorem at the queue of 1 and 2 on key \<open>x\<close>, where 2 waits with count 1: releasing
  2 keeps its count under both policies; under policy A, releasing the owner 1 erases the
  count of 2, whose request was right behind the front and is the front afterwards, and a
  further write lock of 2 on \<open>x\<close> raises its count.
\<close>

theorem Release_keeps_own_count_witness:
  "length (filter (\<lambda>r. req_txn r = (2::nat))
     (queue_of (snd (run stepA [WriteLock 1 ''x'', WriteLock 2 ''x''] new_manager)) ''x'')) \<le> 1 \<and>
   txn_waits (snd (run stepA [WriteLock (1::nat) ''x'', WriteLock 2 ''x''] new_manager)) 2 = Some 1 \<and>
   txn_waits (LockManagerA_Release 2 ''x''
     (snd (run stepA [WriteLock (1::nat) ''x'', WriteLock 2 ''x''] new_manager))) 2 = Some 1 \<and>
   txn_waits (LockManagerB_Release 2 ''x''
     (snd (run stepA [WriteLock (1::nat) ''x'', WriteLock 2 ''x''] new_manager))) 2 = Some 1 \<and>
   queue_of (LockManagerA_Release 2 ''x''
     (snd (run stepA [WriteLock (1::nat) ''x'', WriteLock 2 ''x''] new_manager))) ''x'' =
     [\<lparr>req_mode = EXCLUSIVE, req_txn = 1\<rparr>] \<and>
   queue_of (LockManagerB_Release 2 ''x''
     (snd (run stepA [WriteLock (1::nat) ''x'', WriteLock 2 ''x''] new_manager))) ''x'' =
     [\<lparr>req_mode = EXCLUSIVE, req_txn = 1\<rparr>] \<and>
   txn_waits (LockManagerA_Release 1 ''x''
     (snd (run stepA [WriteLock (1::nat) ''x'', WriteLock 2 ''x''] new_manager))) 2 \<noteq>
     txn_waits (snd (run stepA [WriteLock (1::nat) ''x'', WriteLock 2 ''x''] new_manager)) 2 \<and>
   req_txn (hd (tl (queue_of
     (snd (run stepA [WriteLock (1::nat) ''x'', WriteLock 2 ''x''] new_manager)) ''x''))) = 2 \<and>
   queue_of (LockManagerA_Release 1 ''x''
     (snd (run stepA [WriteLock (1::nat) ''x'', WriteLock 2 ''x''] new_manager))) ''x'' =
     [\<lparr>req_mode = EXCLUSIVE, req_txn = 2\<rparr>] \<and>
   waits_get (txn_waits (LockManagerA_Release 1 ''x''
     (snd (run stepA [WriteLock (1::nat) ''x'', WriteLock 2 ''x''] new_manager)))) 2 = 0 \<and>
   (\<forall>tx k. WriteLock (2::nat) ''x'' \<noteq> Release tx k) \<and>
   waits_get (txn_waits (snd (stepA (WriteLock 2 ''x'')
     (snd (run stepA [WriteLock (1::nat) ''x'', WriteLock 2 ''x''] new_manager))))) 2 = 2"
  using Release_keeps_own_count [where txn = 2 and key = "''x''" and tx = 1 and k = "''x''" and t = 2
      and c = "WriteLock 2 ''x''"
      and s = "snd (run stepA [WriteLock (1::nat) ''x'', WriteLock 2 ''x''] new_manager)"]
  by (simp add: eval_defs)

text \<open>
  C10 as stated fails when a transaction has two requests on the key. Under policy A,
  transaction 1 owns \<open>x\<close> and waits for it a second time; its \<open>Release\<close> erases its own
  wait count. Under policy B, transaction 1 waits twice behind the reader 0; releasing its
  exclusive request, which was never granted, takes its own wait count from 2 to 1.
\<close>

theorem Release_own_count_counterexample:
  "txn_waits (snd (run stepA [WriteLock (1::nat) ''x'', WriteLock 1 ''x''] new_manager)) 1 = Some 1 \<and>
   txn_waits (LockManagerA_Release 1 ''x''
     (snd (run stepA [WriteLock (1::nat) ''x'', WriteLock 1 ''x''] new_manager))) 1 = None \<and>
   queue_of (snd (run stepB [ReadLock (0::nat) ''x'', WriteLock 1 ''x'', ReadLock 1 ''x''] new_manager)) ''x'' =
     [\<lparr>req_mode = SHARED, req_txn = 0\<rparr>, \<lparr>req_mode = EXCLUSIVE, req_txn = 1\<rparr>,
      \<lparr>req_mode = SHARED, req_txn = 1\<rparr>] \<and>
   txn_waits (snd (run stepB [ReadLock (0::nat) ''x'', WriteLock 1 ''x'', ReadLock 1 ''x''] new_manager)) 1 = Some 2 \<and>
   txn_waits (LockManagerB_Release 1 ''x''
     (snd (run stepB [ReadLock (0::nat) ''x'', WriteLock 1 ''x'', ReadLock 1 ''x''] new_manager))) 1 = Some 1"
  by (simp add: eval_defs)

section \<open>Every queue holds shared and exclusive requests only\<close>

text \<open>
  The hypothesis of the single-owner part of C4 holds in every manager that a sequence of
  calls reaches from a new one.
\<close>

lemma new_manager_modes_ok: "manager_modes_ok new_manager"
  by (simp add: manager_modes_ok_def queue_modes_ok_def queue_of_def new_manager_def)

lemma modes_ok_upd:
  "manager_modes_ok s \<Longrightarrow> lock_table s' = (lock_table s)(key \<mapsto> dq) \<Longrightarrow> queue_modes_ok dq \<Longrightarrow>
     manager_modes_ok s'"
  using queue_of_fun_upd[of s' s key dq] by (simp add: manager_modes_ok_def)

lemma modes_ok_erase: "queue_modes_ok q \<Longrightarrow> queue_modes_ok (B_erase_scan txn q)"
  using B_erase_scan_subset[of txn q] by (auto simp: queue_modes_ok_def list_all_iff)

lemma stepA_modes_ok: "manager_modes_ok s \<Longrightarrow> manager_modes_ok (snd (stepA c s))"
proof (cases c)
  case (Release txn key)
  assume m: "manager_modes_ok s"
  show ?thesis unfolding Release
    using modes_ok_upd[OF m A_Release_table[of txn key s]] modes_ok_erase[of "queue_of s key" txn] m
    by (simp add: manager_modes_ok_def)
next
  case (Status key)
  assume m: "manager_modes_ok s"
  show ?thesis unfolding Status
    using modes_ok_upd[OF m, of "snd (snd (LockManagerA_Status key [] s))" key "queue_of s key"] m
    by (simp add: split_beta A_Status_state manager_modes_ok_def)
next
  case (ReadLock txn key)
  assume m: "manager_modes_ok s"
  show ?thesis unfolding ReadLock
    using modes_ok_upd[OF m, of "snd (LockManagerA_WriteLock txn key s)" key
        "queue_of s key @ [\<lparr>req_mode = EXCLUSIVE, req_txn = txn\<rparr>]"] m
    by (simp add: split_beta LockManagerA_ReadLock_def A_WriteLock_eq manager_modes_ok_def queue_modes_ok_def)
next
  case (WriteLock txn key)
  assume m: "manager_modes_ok s"
  show ?thesis unfolding WriteLock
    using modes_ok_upd[OF m, of "snd (LockManagerA_WriteLock txn key s)" key
        "queue_of s key @ [\<lparr>req_mode = EXCLUSIVE, req_txn = txn\<rparr>]"] m
    by (simp add: split_beta A_WriteLock_eq manager_modes_ok_def queue_modes_ok_def)
qed

lemma stepB_modes_ok: "manager_modes_ok s \<Longrightarrow> manager_modes_ok (snd (stepB c s))"
proof (cases c)
  case (Release txn key)
  assume m: "manager_modes_ok s"
  show ?thesis unfolding Release
    using modes_ok_upd[OF m B_Release_table[of txn key s]] modes_ok_erase[of "queue_of s key" txn] m
    by (simp add: manager_modes_ok_def)
next
  case (Status key)
  assume m: "manager_modes_ok s"
  show ?thesis unfolding Status
    using modes_ok_upd[OF m, of "snd (snd (LockManagerB_Status key (Some []) s))" key "queue_of s key"] m
    by (simp add: split_beta B_Status_state manager_modes_ok_def)
next
  case (ReadLock txn key)
  assume m: "manager_modes_ok s"
  show ?thesis unfolding ReadLock
    using modes_ok_upd[OF m, of "snd (LockManagerB_ReadLock txn key s)" key
        "queue_of s key @ [\<lparr>req_mode = SHARED, req_txn = txn\<rparr>]"] m
    by (simp add: split_beta B_ReadLock_eq Let_def manager_modes_ok_def queue_modes_ok_def)
next
  case (WriteLock txn key)
  assume m: "manager_modes_ok s"
  show ?thesis unfolding WriteLock
    using modes_ok_upd[OF m, of "snd (LockManagerB_WriteLock txn key s)" key
        "queue_of s key @ [\<lparr>req_mode = EXCLUSIVE, req_txn = txn\<rparr>]"] m
    by (simp add: split_beta B_WriteLock_eq manager_modes_ok_def queue_modes_ok_def)
qed

lemma reachable_modes_ok:
  "queue_modes_ok (queue_of (snd (run stepA cs new_manager)) key)"
  "queue_modes_ok (queue_of (snd (run stepB cs new_manager)) key)"
  using run_invariant[of manager_modes_ok stepA new_manager cs, OF stepA_modes_ok new_manager_modes_ok]
    run_invariant[of manager_modes_ok stepB new_manager cs, OF stepB_modes_ok new_manager_modes_ok]
  by (simp_all add: manager_modes_ok_def)

section \<open>Policy B: what Status computes\<close>

lemma B_Status_exclusive_single:
  assumes "queue_modes_ok (queue_of s key)"
    and "fst (LockManagerB_Status key (Some old) s) = EXCLUSIVE"
  shows "fst (snd (LockManagerB_Status key (Some old) s)) = Some [req_txn (hd (queue_of s key))]"
proof -
  have ne: "queue_of s key \<noteq> []"
    using assms(2) by (auto simp: B_Status_eq B_status_of_def)
  show ?thesis
    using ne assms B_status_of_modes_ok[of "queue_of s key"]
    by (simp add: B_Status_eq split: if_splits)
qed

text \<open>
  C4. Under policy B, for a key whose queue is not empty, \<open>Status\<close> returns as owners the
  transactions of the prefix that the specified walk accepts, starting from the seed mode
  \<open>EXCLUSIVE\<close>: the prefix is not empty, it is an initial segment of the queue, and the
  returned mode is the mode of its last request. When the queue holds only shared and
  exclusive requests and the returned mode is \<open>EXCLUSIVE\<close>, the owners are exactly the
  one transaction at the front; that is so in every manager that a sequence of calls
  reaches from a new one, where no other request is ever enqueued. Policy A's \<open>Status\<close>
  also reports exactly the front transaction whenever it returns \<open>EXCLUSIVE\<close>.
\<close>

theorem B_Status_walk:
  "(queue_of s key \<noteq> [] \<longrightarrow>
      spec_owner_prefix (queue_of s key) EXCLUSIVE \<noteq> [] \<and>
      take (length (spec_owner_prefix (queue_of s key) EXCLUSIVE)) (queue_of s key) =
        spec_owner_prefix (queue_of s key) EXCLUSIVE \<and>
      fst (snd (LockManagerB_Status key (Some old) s)) =
        Some (map req_txn (spec_owner_prefix (queue_of s key) EXCLUSIVE)) \<and>
      fst (LockManagerB_Status key owners s) =
        req_mode (last (spec_owner_prefix (queue_of s key) EXCLUSIVE)) \<and>
      (queue_modes_ok (queue_of s key) \<and> fst (LockManagerB_Status key (Some old) s) = EXCLUSIVE \<longrightarrow>
         fst (snd (LockManagerB_Status key (Some old) s)) = Some [req_txn (hd (queue_of s key))])) \<and>
   (fst (LockManagerB_Status key (Some old) (snd (run stepB cs new_manager))) = EXCLUSIVE \<longrightarrow>
      fst (snd (LockManagerB_Status key (Some old) (snd (run stepB cs new_manager)))) =
        Some [req_txn (hd (queue_of (snd (run stepB cs new_manager)) key))]) \<and>
   (fst (LockManagerA_Status key oldA s) = EXCLUSIVE \<longrightarrow>
      fst (snd (LockManagerA_Status key oldA s)) = [req_txn (hd (queue_of s key))])"
proof (intro conjI impI)
  assume ne: "queue_of s key \<noteq> []"
  show "spec_owner_prefix (queue_of s key) EXCLUSIVE \<noteq> []"
    using ne by (rule spec_prefix_seed_nonempty)
  show "take (length (spec_owner_prefix (queue_of s key) EXCLUSIVE)) (queue_of s key) =
        spec_owner_prefix (queue_of s key) EXCLUSIVE"
    by (rule spec_prefix_take)
  show "fst (snd (LockManagerB_Status key (Some old) s)) =
        Some (map req_txn (spec_owner_prefix (queue_of s key) EXCLUSIVE))"
    using ne by (simp add: B_Status_eq B_status_of_spec)
  show "fst (LockManagerB_Status key owners s) =
        req_mode (last (spec_owner_prefix (queue_of s key) EXCLUSIVE))"
    using ne by (simp add: B_Status_eq B_status_of_spec)
next
  assume ne: "queue_of s key \<noteq> []"
    and h: "queue_modes_ok (queue_of s key) \<and> fst (LockManagerB_Status key (Some old) s) = EXCLUSIVE"
  show "fst (snd (LockManagerB_Status key (Some old) s)) = Some [req_txn (hd (queue_of s key))]"
    using ne h B_status_of_modes_ok[of "queue_of s key"]
    by (simp add: B_Status_eq split: if_splits)
next
  assume "fst (LockManagerB_Status key (Some old) (snd (run stepB cs new_manager))) = EXCLUSIVE"
  with reachable_modes_ok(2)[of cs key]
  show "fst (snd (LockManagerB_Status key (Some old) (snd (run stepB cs new_manager)))) =
        Some [req_txn (hd (queue_of (snd (run stepB cs new_manager)) key))]"
    by (rule B_Status_exclusive_single)
next
  assume "fst (LockManagerA_Status key oldA s) = EXCLUSIVE"
  then show "fst (snd (LockManagerA_Status key oldA s)) = [req_txn (hd (queue_of s key))]"
    by (simp add: A_Status_eq split: if_splits)
qed

text \<open>
  The theorem at two managers: the queue \<open>S:1, S:2, E:3\<close>, whose owners are 1 and 2 in
  shared mode, and the queue \<open>E:3, S:4\<close>, whose only owner is 3.
\<close>

theorem B_Status_walk_witness:
  "queue_of (snd (run stepB [ReadLock (1::nat) ''y'', ReadLock 2 ''y'', WriteLock 3 ''y''] new_manager)) ''y'' \<noteq> [] \<and>
   LockManagerB_Status ''y'' (Some [])
     (snd (run stepB [ReadLock (1::nat) ''y'', ReadLock 2 ''y'', WriteLock 3 ''y''] new_manager)) =
     (SHARED, Some [1, 2],
      snd (run stepB [ReadLock (1::nat) ''y'', ReadLock 2 ''y'', WriteLock 3 ''y''] new_manager)) \<and>
   queue_modes_ok (queue_of (snd (run stepB [WriteLock (3::nat) ''y'', ReadLock 4 ''y''] new_manager)) ''y'') \<and>
   fst (LockManagerB_Status ''y'' (Some [])
     (snd (run stepB [WriteLock (3::nat) ''y'', ReadLock 4 ''y''] new_manager))) = EXCLUSIVE \<and>
   fst (snd (LockManagerB_Status ''y'' (Some [])
     (snd (run stepB [WriteLock (3::nat) ''y'', ReadLock 4 ''y''] new_manager)))) = Some [3] \<and>
   fst (LockManagerA_Status ''y'' []
     (snd (run stepA [WriteLock (3::nat) ''y'', ReadLock 4 ''y''] new_manager))) = EXCLUSIVE \<and>
   fst (snd (LockManagerA_Status ''y'' []
     (snd (run stepA [WriteLock (3::nat) ''y'', ReadLock 4 ''y''] new_manager)))) = [3]"
  using B_Status_walk [where key = "''y''" and old = "[]" and owners = "Some []" and oldA = "[]"
      and s = "snd (run stepB [WriteLock (3::nat) ''y'', ReadLock 4 ''y''] new_manager)"
      and cs = "[WriteLock (3::nat) ''y'', ReadLock 4 ''y'']"]
    B_Status_walk [where key = "''y''" and old = "[]" and owners = "Some []" and oldA = "[]"
      and s = "snd (run stepB [ReadLock (1::nat) ''y'', ReadLock 2 ''y'', WriteLock 3 ''y''] new_manager)"
      and cs = "[WriteLock (3::nat) ''y'', ReadLock 4 ''y'']"]
  by (simp add: eval_defs queue_modes_ok_def)

end
